theory Spec2Isabelle
  imports Main "HOL-Library.Word"
begin

section \<open>Bytes, wire constants and the transport\<close>

type_synonym byte = "8 word"

text \<open>Modelled from the spec: the wire constants (escape marker 0xFF and the command
  bytes for begin-subnegotiation, end-subnegotiation, willing, wont, do, dont) are declared
  in a file of the repository that is not under src/; the spec fixes the marker as 0xFF and
  the others as the single-byte values of the governing protocol (RFC 854).\<close>

definition IAC :: byte where "IAC = 255"
definition DONT :: byte where "DONT = 254"
definition DO :: byte where "DO = 253"
definition WONT :: byte where "WONT = 252"
definition WILL :: byte where "WILL = 251"
definition SB :: byte where "SB = 250"
definition SE :: byte where "SE = 240"

datatype error = EOF | NetError nat

text \<open>The embedded \<^verbatim>\<open>net.Conn\<close> is external. It is modelled as a scripted stream:
  \<open>rd\<close> lists the results the coming \<^verbatim>\<open>Conn.Read\<close> calls will give (bytes and an
  optional error); a chunk longer than the slice offered is delivered in part and the rest
  stays pending; an exhausted script reads as end of stream. \<open>wr\<close> scripts the coming
  \<^verbatim>\<open>Conn.Write\<close> calls: \<open>None\<close> (or an exhausted script) accepts the whole slice,
  \<open>Some (k, e)\<close> accepts at most \<open>k\<close> bytes and fails with \<open>e\<close>. \<open>wire\<close> collects
  every byte the transport accepted.\<close>

record transport =
  rd :: "(byte list \<times> error option) list"
  wr :: "(nat \<times> error) option list"
  wire :: "byte list"

definition Conn_Read :: "transport \<Rightarrow> nat \<Rightarrow> (byte list \<times> error option) \<times> transport" where
  "Conn_Read t room =
     (case rd t of
        [] \<Rightarrow> (([], Some EOF), t)
      | (bs, e) # rest \<Rightarrow>
          if length bs \<le> room then ((bs, e), t\<lparr>rd := rest\<rparr>)
          else ((take room bs, None), t\<lparr>rd := (drop room bs, e) # rest\<rparr>))"

definition Conn_Write :: "transport \<Rightarrow> byte list \<Rightarrow> (nat \<times> error option) \<times> transport" where
  "Conn_Write t p =
     (case wr t of
        [] \<Rightarrow> ((length p, None), t\<lparr>wire := wire t @ p\<rparr>)
      | None # rest \<Rightarrow> ((length p, None), t\<lparr>wire := wire t @ p, wr := rest\<rparr>)
      | Some (k, e) # rest \<Rightarrow>
          ((min k (length p), Some e),
           t\<lparr>wire := wire t @ take (min k (length p)) p, wr := rest\<rparr>))"

section \<open>The escaping writer\<close>

text \<open>\<^verbatim>\<open>b[lo:hi]\<close> for \<open>lo \<le> hi \<le> length b\<close>.\<close>

definition slice :: "'a list \<Rightarrow> nat \<Rightarrow> nat \<Rightarrow> 'a list" where
  "slice xs lo hi = take (hi - lo) (drop lo xs)"

text \<open>The guarded flush of \<^verbatim>\<open>Write\<close>: \<^verbatim>\<open>if lastWrite < i-1 { nn, err = c.Conn.Write(b[lastWrite:i]); n += nn }\<close>.
  The comparison is on Go's signed \<^verbatim>\<open>int\<close>, so it is written on \<open>int\<close>.\<close>

definition flush_run ::
  "byte list \<Rightarrow> nat \<Rightarrow> nat \<Rightarrow> nat \<Rightarrow> transport \<Rightarrow> (nat \<times> error option) \<times> transport" where
  "flush_run b lastWrite i n t =
     (if int lastWrite < int i - 1
      then (case Conn_Write t (slice b lastWrite i) of ((nn, err), t') \<Rightarrow> ((n + nn, err), t'))
      else ((n, None), t))"

text \<open>The loop of \<^verbatim>\<open>Write\<close> over the indices of \<open>b\<close> (lines 72-88), with the locals
  \<open>lastWrite\<close> and \<open>n\<close>, and the flush of the last run behind it (lines 89-92). Each
  \<^verbatim>\<open>return\<close> after a failed write is a result with \<open>Some e\<close>.\<close>

function Write_loop ::
  "byte list \<Rightarrow> nat \<Rightarrow> nat \<Rightarrow> nat \<Rightarrow> transport \<Rightarrow> (nat \<times> error option) \<times> transport" where
  "Write_loop b i lastWrite n t =
     (if i < length b then
        (if b ! i = IAC then
           (case flush_run b lastWrite i n t of
              ((n1, Some e), t1) \<Rightarrow> ((n1, Some e), t1)
            | ((n1, None), t1) \<Rightarrow>
                (case Conn_Write t1 [IAC, IAC] of
                   ((nn, Some e), t2) \<Rightarrow> ((n1 + nn, Some e), t2)
                 | ((nn, None), t2) \<Rightarrow> Write_loop b (i + 1) (i + 1) (n1 + nn) t2))
         else Write_loop b (i + 1) lastWrite n t)
      else (if lastWrite < length b
            then (case Conn_Write t (drop lastWrite b) of ((nn, err), t') \<Rightarrow> ((n + nn, err), t'))
            else ((n, None), t)))"
  by pat_completeness auto
termination
  by (relation "measure (\<lambda>(b, i, lastWrite, n, t). length b - i)") auto

text \<open>\<^verbatim>\<open>Write\<close> on the transport alone: the loop from its initial locals.\<close>

definition Write_t :: "transport \<Rightarrow> byte list \<Rightarrow> (nat \<times> error option) \<times> transport" where
  "Write_t t b = Write_loop b 0 0 0 t"

section \<open>The connection\<close>

text \<open>Option handlers are external collaborators. A handler is known by its option code and
  an identity; a call of one of its callbacks is recorded in the connection's \<open>events\<close>
  trace (with the body passed to \<^verbatim>\<open>HandleSB\<close>), and is taken not to touch the
  connection otherwise.\<close>

datatype negotiator = Negotiator (OptionCode: byte) (ident: nat)

datatype event =
    Offer negotiator
  | HandleDo negotiator
  | HandleWill negotiator
  | HandleSB negotiator "byte list"

record connection =
  Conn :: transport
  OptionHandlers :: "byte \<rightharpoonup> negotiator"
  buf :: "byte list"
  r :: nat
  w :: nat
  iac :: bool
  cmd :: byte
  option :: byte
  clientWont :: "byte set"
  clientDont :: "byte set"
  events :: "event list"

text \<open>An \<^verbatim>\<open>Option\<close> is a factory from the connection to its handler; it is modelled by
  the handler it yields.\<close>

definition register :: "connection \<Rightarrow> negotiator \<Rightarrow> connection" where
  "register conn h =
     conn\<lparr>OptionHandlers := (OptionHandlers conn)(OptionCode h \<mapsto> h),
          events := events conn @ [Offer h]\<rparr>"

definition NewConnection :: "transport \<Rightarrow> negotiator list \<Rightarrow> connection" where
  "NewConnection c options =
     foldl register
       \<lparr>Conn = c, OptionHandlers = Map.empty, buf = replicate 256 0, r = 0, w = 0,
        iac = False, cmd = 0, option = 0, clientWont = {}, clientDont = {}, events = []\<rparr>
       options"

definition Write :: "connection \<Rightarrow> byte list \<Rightarrow> (nat \<times> error option) \<times> connection" where
  "Write c b = (case Write_t (Conn c) b of (res, t) \<Rightarrow> (res, c\<lparr>Conn := t\<rparr>))"

definition writeBytes :: "connection \<Rightarrow> byte list \<Rightarrow> (nat \<times> error option) \<times> connection" where
  "writeBytes c bytes = (case Conn_Write (Conn c) bytes of (res, t) \<Rightarrow> (res, c\<lparr>Conn := t\<rparr>))"

definition handleNegotiation :: "connection \<Rightarrow> (nat \<times> error option) \<times> connection" where
  "handleNegotiation c =
     (if cmd c = WILL then
        (case OptionHandlers c (option c) of
           Some h \<Rightarrow> ((0, None), c\<lparr>events := events c @ [HandleWill h]\<rparr>)
         | None \<Rightarrow> writeBytes c [IAC, DONT, option c])
      else if cmd c = WONT then
        ((0, None), c\<lparr>clientWont := insert (option c) (clientWont c)\<rparr>)
      else if cmd c = DO then
        (case OptionHandlers c (option c) of
           Some h \<Rightarrow> ((0, None), c\<lparr>events := events c @ [HandleDo h]\<rparr>)
         | None \<Rightarrow> writeBytes c [IAC, WONT, option c])
      else if cmd c = DONT then
        ((0, None), c\<lparr>clientDont := insert (option c) (clientDont c)\<rparr>)
      else ((0, None), c))"

section \<open>Buffer fill\<close>

text \<open>\<^verbatim>\<open>copy(dst[off:], src)\<close>: the bytes of \<open>src\<close> that fit replace those of \<open>dst\<close> from
  \<open>off\<close> on; the number copied is \<open>min (length dst - off) (length src)\<close>.\<close>

definition copy_at :: "'a list \<Rightarrow> nat \<Rightarrow> 'a list \<Rightarrow> 'a list" where
  "copy_at dst off src = take off dst @ take (length dst - off) src @ drop (off + length src) dst"

datatype 'a outcome = Panic | Ret 'a

text \<open>The cursors are Go \<^verbatim>\<open>int\<close>s; they are natural numbers here, and a slice expression
  whose bounds Go rejects (which is where a negative cursor would surface) is a \<open>Panic\<close>.\<close>

definition compact :: "connection \<Rightarrow> connection outcome" where
  "compact c =
     (if 0 < r c then
        (if length (buf c) < r c \<or> w c < r c then Panic
         else Ret (c\<lparr>buf := copy_at (buf c) 0 (drop (r c) (buf c)), w := w c - r c, r := 0\<rparr>))
      else Ret c)"

definition grow :: "connection \<Rightarrow> nat \<Rightarrow> connection outcome" where
  "grow c requestedBytes =
     (if length (buf c) < requestedBytes then
        (if w c < r c \<or> length (buf c) < w c then Panic
         else Ret (c\<lparr>buf := copy_at (replicate requestedBytes 0) 0 (slice (buf c) (r c) (w c)),
                     w := w c - r c, r := 0\<rparr>))
      else Ret c)"

definition fill :: "connection \<Rightarrow> nat \<Rightarrow> error option outcome \<times> connection" where
  "fill c requestedBytes =
     (case compact c of
        Panic \<Rightarrow> (Panic, c)
      | Ret c1 \<Rightarrow>
          (case grow c1 requestedBytes of
             Panic \<Rightarrow> (Panic, c1)
           | Ret c2 \<Rightarrow>
               (if length (buf c2) < w c2 then (Panic, c2)
                else (case Conn_Read (Conn c2) (length (buf c2) - w c2) of
                        ((bs, err), t) \<Rightarrow>
                          (Ret err,
                           c2\<lparr>Conn := t, buf := copy_at (buf c2) (w c2) bs,
                              w := w c2 + length bs\<rparr>)))))"

section \<open>The decode pass\<close>

text \<open>The locals of \<^verbatim>\<open>read\<close> (\<open>b\<close>, \<open>lastWrite\<close>, \<open>n\<close>, \<open>ignoreIAC\<close>, \<open>i\<close>) are
  passed along with the connection. One turn of the loop either continues with the next
  index, or leaves the loop: by \<^verbatim>\<open>break\<close> or the loop condition (\<open>Break\<close>), by
  \<^verbatim>\<open>return 0, err\<close> (\<open>Fail\<close>), or by an index or slice out of range (\<open>Crash\<close>).\<close>

datatype exit =
    Break connection "byte list" nat nat
  | Fail error connection "byte list"
  | Crash connection "byte list"

datatype step =
    Continue connection "byte list" nat nat bool nat
  | Exit exit

text \<open>The closure \<^verbatim>\<open>write(end)\<close> (\<open>write\<close> is reserved in Isabelle); \<open>None\<close> when \<^verbatim>\<open>c.buf[c.r:end]\<close> is out of range.\<close>

definition write_b ::
  "connection \<Rightarrow> byte list \<Rightarrow> nat \<Rightarrow> nat \<Rightarrow> nat \<Rightarrow> (connection \<times> byte list \<times> nat \<times> nat) option" where
  "write_b c b lastWrite n endp =
     (if r c = endp then Some (c, b, lastWrite, n)
      else if endp < r c \<or> length (buf c) < endp then None
      else (let nn = min (length b - lastWrite) (endp - r c)
            in Some (c\<lparr>r := r c + nn\<rparr>, copy_at b lastWrite (slice (buf c) (r c) endp),
                     lastWrite + nn, n + nn)))"

definition endIAC :: "connection \<Rightarrow> nat \<Rightarrow> connection" where
  "endIAC c i = c\<lparr>iac := False, cmd := 0, option := 0, r := i + 1\<rparr>"

text \<open>The branches of the loop body, in the order of the source. Lines 154-159: a marker
  right after a marker, no command captured.\<close>

definition escaped_text :: "connection \<Rightarrow> byte list \<Rightarrow> nat \<Rightarrow> nat \<Rightarrow> nat \<Rightarrow> step" where
  "escaped_text c b lastWrite n i =
     (case write_b c b lastWrite n i of
        None \<Rightarrow> Exit (Crash c b)
      | Some (c1, b1, lastWrite1, n1) \<Rightarrow>
          Continue (c1\<lparr>r := r c1 + 1, iac := False\<rparr>) b1 lastWrite1 n1 False (i + 1))"

text \<open>Lines 160-165: a marker after a marker inside a sequence;
  \<^verbatim>\<open>copy(c.buf[:i], c.buf[i+1:])\<close>, then \<^verbatim>\<open>i--\<close> and \<^verbatim>\<open>continue\<close>, which leaves \<open>i\<close> as it
  is.\<close>

definition escaped_inside :: "connection \<Rightarrow> byte list \<Rightarrow> nat \<Rightarrow> nat \<Rightarrow> nat \<Rightarrow> step" where
  "escaped_inside c b lastWrite n i =
     Continue (c\<lparr>buf := copy_at (take i (buf c)) 0 (drop (i + 1) (buf c)) @ drop i (buf c)\<rparr>)
       b lastWrite n True i"

text \<open>Lines 166-170: a marker outside a sequence.\<close>

definition start_sequence :: "connection \<Rightarrow> byte list \<Rightarrow> nat \<Rightarrow> nat \<Rightarrow> nat \<Rightarrow> step" where
  "start_sequence c b lastWrite n i =
     (case write_b c b lastWrite n i of
        None \<Rightarrow> Exit (Crash c b)
      | Some (c1, b1, lastWrite1, n1) \<Rightarrow>
          Continue (c1\<lparr>iac := True\<rparr>) b1 lastWrite1 n1 False (i + 1))"

text \<open>Lines 176-186: the command byte.\<close>

definition take_command :: "connection \<Rightarrow> byte list \<Rightarrow> nat \<Rightarrow> nat \<Rightarrow> nat \<Rightarrow> byte \<Rightarrow> step" where
  "take_command c b lastWrite n i ch =
     (if ch = SB then
        (if w c \<le> i + 2 then Exit (Break (c\<lparr>cmd := ch\<rparr>) b lastWrite n)
         else Continue (c\<lparr>cmd := ch, r := i + 2\<rparr>) b lastWrite n False (i + 1))
      else Continue (c\<lparr>cmd := ch\<rparr>) b lastWrite n False (i + 1))"

text \<open>Lines 187-197: the option byte.\<close>

definition take_option :: "connection \<Rightarrow> byte list \<Rightarrow> nat \<Rightarrow> nat \<Rightarrow> nat \<Rightarrow> byte \<Rightarrow> step" where
  "take_option c b lastWrite n i ch =
     (if cmd c \<noteq> SB then
        (case handleNegotiation (c\<lparr>option := ch\<rparr>) of
           (res, c1) \<Rightarrow>
             (case snd res of
                Some e \<Rightarrow> Exit (Fail e c1 b)
              | None \<Rightarrow> Continue (endIAC c1 i) b lastWrite n False (i + 1)))
      else Continue (c\<lparr>option := ch\<rparr>) b lastWrite n False (i + 1))"

text \<open>Lines 198-205: \<open>SE\<close> inside a subnegotiation; the test \<^verbatim>\<open>c.buf[i-1] == IAC\<close> comes
  last in the condition.\<close>

definition end_subnegotiation :: "connection \<Rightarrow> byte list \<Rightarrow> nat \<Rightarrow> nat \<Rightarrow> nat \<Rightarrow> step" where
  "end_subnegotiation c b lastWrite n i =
     (if i = 0 then Exit (Crash c b)
      else if buf c ! (i - 1) = IAC then
        (case OptionHandlers c (option c) of
           Some h \<Rightarrow>
             (if i - 1 < r c then Exit (Crash c b)
              else Continue
                     (endIAC (c\<lparr>events := events c @ [HandleSB h (slice (buf c) (r c) (i - 1))]\<rparr>) i)
                     b lastWrite n False (i + 1))
         | None \<Rightarrow> Continue (endIAC c i) b lastWrite n False (i + 1))
      else Continue c b lastWrite n False (i + 1))"

definition read_step :: "connection \<Rightarrow> byte list \<Rightarrow> nat \<Rightarrow> nat \<Rightarrow> bool \<Rightarrow> nat \<Rightarrow> step" where
  "read_step c b lastWrite n ignoreIAC i =
     (if length (buf c) \<le> i then Exit (Crash c b)
      else (let ch = buf c ! i in
        if ch = IAC \<and> \<not> ignoreIAC \<and> iac c \<and> cmd c = 0 then escaped_text c b lastWrite n i
        else if ch = IAC \<and> \<not> ignoreIAC \<and> iac c \<and> i = 0 then Exit (Crash c b)
        else if ch = IAC \<and> \<not> ignoreIAC \<and> iac c \<and> buf c ! (i - 1) = IAC
          then escaped_inside c b lastWrite n i
        else if ch = IAC \<and> \<not> ignoreIAC \<and> \<not> iac c then start_sequence c b lastWrite n i
        else if iac c \<and> cmd c = 0 then take_command c b lastWrite n i ch
        else if iac c \<and> option c = 0 then take_option c b lastWrite n i ch
        else if iac c \<and> cmd c = SB \<and> ch = SE then end_subnegotiation c b lastWrite n i
        else Continue c b lastWrite n False (i + 1)))"

function read_loop :: "connection \<Rightarrow> byte list \<Rightarrow> nat \<Rightarrow> nat \<Rightarrow> bool \<Rightarrow> nat \<Rightarrow> exit" where
  "read_loop c b lastWrite n ignoreIAC i =
     (if i < w c \<and> lastWrite < length b then
        (case read_step c b lastWrite n ignoreIAC i of
           Continue c1 b1 lastWrite1 n1 ignoreIAC1 i1 \<Rightarrow> read_loop c1 b1 lastWrite1 n1 ignoreIAC1 i1
         | Exit x \<Rightarrow> x)
      else Break c b lastWrite n)"
  by pat_completeness auto
termination
proof (relation "measure (\<lambda>(c, b, lastWrite, n, ignoreIAC, i).
                   2 * (w c - i) + (if ignoreIAC then 0 else 1))", goal_cases)
  case 1
  then show ?case by simp
next
  case (2 c b lastWrite n ignoreIAC i c1 b1 l1 n1 g1 i1)
  have neg: "w (snd (handleNegotiation c')) = w c'" for c'
    by (simp add: handleNegotiation_def writeBytes_def split: option.splits prod.splits)
  have wr: "w c2 = w c'" if "write_b c' b' l' n' e' = Some (c2, b2, l2, n2)"
    for c' b' l' n' e' c2 b2 l2 n2
    using that by (auto simp: write_b_def Let_def split: if_splits)
  have step: "w c1 = w c \<and> (i1 = i + 1 \<or> i1 = i \<and> g1 \<and> \<not> ignoreIAC)"
    using 2(2) neg [of "c\<lparr>option := buf c ! i\<rparr>"]
    unfolding read_step_def Let_def escaped_text_def escaped_inside_def start_sequence_def
      take_command_def take_option_def end_subnegotiation_def endIAC_def
    by (auto dest: wr split: if_splits option.splits prod.splits)
  with 2(1) show ?case
    by auto
qed

definition read :: "connection \<Rightarrow> byte list \<Rightarrow> (nat \<times> error option) outcome \<times> byte list \<times> connection" where
  "read c b =
     (case fill c (length b) of
        (Panic, c1) \<Rightarrow> (Panic, b, c1)
      | (Ret (Some e), c1) \<Rightarrow> (Ret (0, Some e), b, c1)
      | (Ret None, c1) \<Rightarrow>
          (case read_loop c1 b 0 0 False (r c1) of
             Crash c2 b2 \<Rightarrow> (Panic, b2, c2)
           | Fail e c2 b2 \<Rightarrow> (Ret (0, Some e), b2, c2)
           | Break c2 b2 lastWrite n \<Rightarrow>
               (if w c2 < r c2 \<or> length (buf c2) < w c2 then (Panic, b2, c2)
                else (let nn = min (length b2 - lastWrite) (w c2 - r c2)
                      in (Ret (n + nn, None),
                          copy_at b2 lastWrite (slice (buf c2) (r c2) (w c2)),
                          c2\<lparr>r := r c2 + nn\<rparr>)))))"

definition maxReadAttempts :: nat where
  "maxReadAttempts = 10"

text \<open>The loop of \<^verbatim>\<open>Read\<close>. Beside the result it gives the number of decode passes
  it started: the final value of its counter \<open>i\<close>, or \<open>i + 1\<close> when the pass started with
  counter \<open>i\<close> panics.\<close>

function Read_loop ::
  "nat \<Rightarrow> nat \<Rightarrow> error option \<Rightarrow> connection \<Rightarrow> byte list
     \<Rightarrow> nat \<times> (nat \<times> error option) outcome \<times> byte list \<times> connection" where
  "Read_loop i n err c b =
     (if i < maxReadAttempts \<and> n = 0 \<and> 0 < length b then
        (case read c b of
           (Panic, b1, c1) \<Rightarrow> (i + 1, Panic, b1, c1)
         | (Ret (n1, err1), b1, c1) \<Rightarrow> Read_loop (i + 1) n1 err1 c1 b1)
      else (i, Ret (n, err), b, c))"
  by pat_completeness auto
termination
  by (relation "measure (\<lambda>(i, n, err, c, b). maxReadAttempts - i)") auto

definition Read :: "connection \<Rightarrow> byte list \<Rightarrow> (nat \<times> error option) outcome \<times> byte list \<times> connection" where
  "Read c b = snd (Read_loop 0 0 None c b)"

section \<open>Callers used to state the properties\<close>

text \<open>A new connection over a transport that will deliver the given reads and accepts
  every write.\<close>

definition fresh :: "(byte list \<times> error option) list \<Rightarrow> negotiator list \<Rightarrow> connection" where
  "fresh script hs = NewConnection \<lparr>rd = script, wr = [], wire = []\<rparr> hs"

text \<open>A caller that makes up to \<open>k\<close> calls of \<^verbatim>\<open>Read\<close>, each with a slice of \<open>room\<close>
  bytes, and collects the application bytes it is given (\<^verbatim>\<open>b[:n]\<close> of each call), until
  a call reports an error or panics.\<close>

fun drain ::
  "nat \<Rightarrow> nat \<Rightarrow> connection \<Rightarrow> byte list \<times> (nat \<times> error option) outcome \<times> connection" where
  "drain 0 room c = ([], Ret (0, None), c)"
| "drain (Suc k) room c =
     (case Read c (replicate room 0) of
        (Ret (n, None), b, c1) \<Rightarrow> (case drain k room c1 of (bs, res) \<Rightarrow> (take n b @ bs, res))
      | (Ret (n, Some e), b, c1) \<Rightarrow> (take n b, Ret (n, Some e), c1)
      | (Panic, b, c1) \<Rightarrow> ([], Panic, c1))"

text \<open>Writing \<open>D\<close> through \<^verbatim>\<open>Write\<close> on one connection, handing the wire bytes in one
  transport read to a second, new connection, and collecting what \<open>k\<close> calls of
  \<^verbatim>\<open>Read\<close> with room for all of \<open>D\<close> decode.\<close>

definition roundtrip :: "byte list \<Rightarrow> nat \<Rightarrow> byte list" where
  "roundtrip D k =
     fst (drain k (length D + 1)
            (fresh [(wire (Conn (snd (Write (fresh [] []) D))), None)] []))"

text \<open>The results of \<open>k\<close> decode passes made one after the other on the same slice, each
  on the connection the one before left; a panic ends the list.\<close>

fun passes ::
  "nat \<Rightarrow> connection \<Rightarrow> byte list
     \<Rightarrow> ((nat \<times> error option) outcome \<times> byte list \<times> connection) list" where
  "passes 0 c b = []"
| "passes (Suc k) c b =
     (case read c b of
        (Panic, b1, c1) \<Rightarrow> [(Panic, b1, c1)]
      | (Ret res, b1, c1) \<Rightarrow> (Ret res, b1, c1) # passes k c1 b1)"

section \<open>Predicates used in the statements and proofs\<close>

text \<open>The connection an exit of the loop carries.\<close>

fun exit_conn :: "exit \<Rightarrow> connection" where
  "exit_conn (Break c b lastWrite n) = c"
| "exit_conn (Fail e c b) = c"
| "exit_conn (Crash c b) = c"

text \<open>The buffer-cursor invariant \<open>0 \<le> r \<le> w \<le> len(buf)\<close>.\<close>

definition buffer_inv :: "connection \<Rightarrow> bool" where
  "buffer_inv c \<longleftrightarrow> r c \<le> w c \<and> w c \<le> length (buf c)"

text \<open>The parser state between control sequences, and a transport whose next write will be
  accepted in full.\<close>

definition idle :: "connection \<Rightarrow> bool" where
  "idle c \<longleftrightarrow> \<not> iac c \<and> cmd c = 0 \<and> option c = 0"

definition accepts_next :: "transport \<Rightarrow> bool" where
  "accepts_next t \<longleftrightarrow> (case wr t of [] \<Rightarrow> True | a # _ \<Rightarrow> a = None)"

text \<open>A property of the connection that one turn of the loop hands on, whether the loop
  continues or is left; the same for the invariant; and the facts about the caller's slice
  and \<open>lastWrite\<close> that a turn hands on.\<close>

definition step_all :: "(connection \<Rightarrow> bool) \<Rightarrow> step \<Rightarrow> bool" where
  "step_all P s = (case s of Continue c1 b1 l1 n1 g1 i1 \<Rightarrow> P c1 | Exit x \<Rightarrow> P (exit_conn x))"

definition step_inv :: "step \<Rightarrow> bool" where
  "step_inv s = (case s of Continue c1 b1 l1 n1 g1 i1 \<Rightarrow> buffer_inv c1
                 | Exit x \<Rightarrow> buffer_inv (exit_conn x))"

definition step_locals :: "nat \<Rightarrow> step \<Rightarrow> bool" where
  "step_locals L s =
     (case s of
        Continue c1 b1 l1 n1 g1 i1 \<Rightarrow> length b1 = L \<and> l1 \<le> L
      | Exit (Break c1 b1 l1 n1) \<Rightarrow> length b1 = L \<and> l1 \<le> L
      | Exit (Fail e c1 b1) \<Rightarrow> length b1 = L
      | Exit (Crash c1 b1) \<Rightarrow> length b1 = L)"

text \<open>The refusal sets hold at least the given option identifiers.\<close>

definition keeps :: "byte set \<Rightarrow> byte set \<Rightarrow> connection \<Rightarrow> bool" where
  "keeps S T c \<longleftrightarrow> S \<subseteq> clientWont c \<and> T \<subseteq> clientDont c"

text \<open>What a run of underlying writes does to the write script: with no error, it consumed
  some entries, all of them accepting; with error \<open>e\<close>, it consumed accepting entries and
  then, last, the first failing entry, which carries \<open>e\<close>. With it, what a run of writes
  that starts with the count \<open>n\<close> on the transport \<open>t\<close> gives: the count grows by the
  number of bytes added to the wire.\<close>

definition writes_until ::
  "(nat \<times> error) option list \<Rightarrow> error option \<Rightarrow> (nat \<times> error) option list \<Rightarrow> bool" where
  "writes_until script err script' \<longleftrightarrow>
     (case err of
        None \<Rightarrow> \<exists>k. script' = drop k script \<and> (\<forall>j<k. j < length script \<longrightarrow> script ! j = None)
      | Some e \<Rightarrow> \<exists>k m. k < length script \<and> script ! k = Some (m, e)
                   \<and> (\<forall>j<k. script ! j = None) \<and> script' = drop (Suc k) script)"

definition write_sound ::
  "nat \<Rightarrow> transport \<Rightarrow> (nat \<times> error option) \<times> transport \<Rightarrow> bool" where
  "write_sound n t res \<longleftrightarrow>
     writes_until (wr t) (snd (fst res)) (wr (snd res))
     \<and> (\<exists>out. wire (snd res) = wire t @ out \<and> fst (fst res) = n + length out)"

lemmas telnet_consts = IAC_def DONT_def DO_def WONT_def WILL_def SB_def SE_def

declare Write_loop.simps [simp del] read_loop.simps [simp del] Read_loop.simps [simp del]

section \<open>Reasoning about the loops\<close>

lemma read_step_cases:
  assumes "Q (Exit (Crash c b))"
    and "i < length (buf c) \<Longrightarrow> iac c \<Longrightarrow> cmd c = 0 \<Longrightarrow> Q (escaped_text c b l n i)"
    and "i < length (buf c) \<Longrightarrow> 0 < i \<Longrightarrow> iac c \<Longrightarrow> \<not> g \<Longrightarrow> Q (escaped_inside c b l n i)"
    and "i < length (buf c) \<Longrightarrow> \<not> iac c \<Longrightarrow> Q (start_sequence c b l n i)"
    and "i < length (buf c) \<Longrightarrow> iac c \<Longrightarrow> cmd c = 0 \<Longrightarrow> Q (take_command c b l n i (buf c ! i))"
    and "i < length (buf c) \<Longrightarrow> iac c \<Longrightarrow> cmd c \<noteq> 0 \<Longrightarrow> option c = 0
           \<Longrightarrow> Q (take_option c b l n i (buf c ! i))"
    and "i < length (buf c) \<Longrightarrow> iac c \<Longrightarrow> cmd c = SB \<Longrightarrow> Q (end_subnegotiation c b l n i)"
    and "i < length (buf c) \<Longrightarrow> Q (Continue c b l n False (i + 1))"
  shows "Q (read_step c b l n g i)"
  using assms unfolding read_step_def Let_def
  by (auto simp: not_le)

lemma read_loop_preserves:
  assumes "I c"
    and step: "\<And>c b l n g i. I c \<Longrightarrow> i < w c \<Longrightarrow>
          (case read_step c b l n g i of
             Continue c1 b1 l1 n1 g1 i1 \<Rightarrow> I c1
           | Exit x \<Rightarrow> I (exit_conn x))"
  shows "I (exit_conn (read_loop c b l n g i))"
  using assms(1)
proof (induction c b l n g i rule: read_loop.induct)
  case (1 c b lastWrite n ignoreIAC i)
  show ?case
  proof (cases "i < w c \<and> lastWrite < length b")
    case False
    then have "read_loop c b lastWrite n ignoreIAC i = Break c b lastWrite n"
      by (subst read_loop.simps) auto
    with 1(2) show ?thesis by simp
  next
    case True
    then have iw: "i < w c" by simp
    show ?thesis
    proof (cases "read_step c b lastWrite n ignoreIAC i")
      case (Continue c1 b1 l1 n1 g1 i1)
      with step [OF 1(2) iw, of b lastWrite n ignoreIAC] have "I c1" by simp
      with 1(1) [OF True Continue] True Continue show ?thesis
        by (simp add: read_loop.simps [of c])
    next
      case (Exit x)
      with step [OF 1(2) iw, of b lastWrite n ignoreIAC] True show ?thesis
        by (simp add: read_loop.simps [of c])
    qed
  qed
qed

lemma Read_loop_stop:
  "\<not> (i < maxReadAttempts \<and> n = 0 \<and> 0 < length b)
   \<Longrightarrow> Read_loop i n err c b = (i, Ret (n, err), b, c)"
  by (subst Read_loop.simps) auto

lemma Read_loop_Panic:
  "i < maxReadAttempts \<Longrightarrow> b \<noteq> [] \<Longrightarrow> read c b = (Panic, b1, c1)
   \<Longrightarrow> Read_loop i 0 err c b = (i + 1, Panic, b1, c1)"
  by (subst Read_loop.simps) simp

lemma Read_loop_Ret:
  "i < maxReadAttempts \<Longrightarrow> b \<noteq> [] \<Longrightarrow> read c b = (Ret (n1, e1), b1, c1)
   \<Longrightarrow> Read_loop i 0 err c b = Read_loop (i + 1) n1 e1 c1 b1"
  by (subst Read_loop.simps) simp

lemma Read_loop_preserves:
  assumes "I c" and pass: "\<And>c b. I c \<Longrightarrow> I (snd (snd (read c b)))"
  shows "I (snd (snd (snd (Read_loop i n err c b))))"
  using assms(1)
proof (induction "maxReadAttempts - i" arbitrary: i n err c b)
  case 0
  then have "\<not> (i < maxReadAttempts \<and> n = 0 \<and> 0 < length b)" by simp
  from Read_loop_stop [OF this] 0(2) show ?case by simp
next
  case (Suc k)
  show ?case
  proof (cases "i < maxReadAttempts \<and> n = 0 \<and> 0 < length b")
    case False
    from Read_loop_stop [OF this] Suc(3) show ?thesis by simp
  next
    case True
    obtain out b1 c1 where rd: "read c b = (out, b1, c1)" by (metis prod_cases3)
    have i1: "I c1" using pass [OF Suc(3), of b] rd by simp
    show ?thesis
    proof (cases out)
      case Panic
      with True rd i1 show ?thesis by (simp add: Read_loop_Panic)
    next
      case (Ret ne)
      obtain n1 e1 where ne: "ne = (n1, e1)" by (cases ne)
      have "k = maxReadAttempts - (i + 1)" using Suc(2) by simp
      from Suc(1) [OF this i1] rd Ret ne True
      show ?thesis by (simp add: Read_loop_Ret)
    qed
  qed
qed

section \<open>Round trip through Write and Read\<close>

text \<open>C1. The round trip does not hold: \<^verbatim>\<open>Write\<close> flushes the run before a marker only
  when \<^verbatim>\<open>lastWrite < i-1\<close>, so a run of exactly one byte is never sent. For the input
  \<open>[0x41, 0xFF]\<close> the wire carries only the doubled marker, and decoding it gives \<open>[0xFF]\<close>:
  the byte \<open>0x41\<close> is lost. A run of two bytes before the marker is sent, and that input
  comes back unchanged.\<close>

theorem C1_roundtrip_loses_byte:
  "wire (Conn (snd (Write (fresh [] []) [0x41, 0xFF]))) = [0xFF, 0xFF]
   \<and> roundtrip [0x41, 0xFF] 2 = [0xFF]
   \<and> wire (Conn (snd (Write (fresh [] []) [0x41, 0x42, 0xFF, 0x43])))
        = [0x41, 0x42, 0xFF, 0xFF, 0x43]
   \<and> roundtrip [0x41, 0x42, 0xFF, 0x43] 2 = [0x41, 0x42, 0xFF, 0x43]"
  by code_simp

section \<open>Split delivery\<close>

text \<open>C2. Split delivery changes the application output. The exchange \<open>IAC WILL 1\<close> (no
  handler registered) delivered in one transport read produces no application byte and the
  reply \<open>IAC DONT 1\<close>; delivered one byte per transport read it produces the same reply,
  but the bytes \<open>IAC\<close> and \<open>WILL\<close> are handed to the caller as application data, because
  the copy that ends each pass also copies the bytes of a sequence still in progress.\<close>

theorem C2_split_delivery_leaks:
  "(case drain 3 4 (fresh [([IAC, WILL, 1], None)] []) of
      (bs, res, c) \<Rightarrow> bs = [] \<and> wire (Conn c) = [IAC, DONT, 1] \<and> events c = [])
   \<and> (case drain 3 4 (fresh [([IAC], None), ([WILL], None), ([1], None)] []) of
      (bs, res, c) \<Rightarrow> bs = [IAC, WILL] \<and> wire (Conn c) = [IAC, DONT, 1] \<and> events c = [])"
  by code_simp

section \<open>Subnegotiation\<close>

text \<open>C3. While the terminator has not arrived the body is not held back: with a handler
  registered for option 24 and the raw bytes \<open>IAC SB 24 1\<close> available, the pass hands the
  body byte \<open>1\<close> to the caller as application data. When \<open>2 IAC SE\<close> arrives in the next
  transport read, \<^verbatim>\<open>HandleSB\<close> receives \<open>[2]\<close>, not the body \<open>[1, 2]\<close>. Delivered in one
  transport read, the same sequence gives \<open>[1, 2]\<close> to the handler and no application
  byte.\<close>

theorem C3_subnegotiation_body_leaks:
  "(case read (fresh [([IAC, SB, 24, 1], None), ([2, IAC, SE], None)] [Negotiator 24 0]) [0, 0, 0, 0] of
      (out, b, c) \<Rightarrow> out = Ret (1, None) \<and> b = [1, 0, 0, 0] \<and> iac c \<and> cmd c = SB \<and> r c = w c)
   \<and> (case drain 2 4 (fresh [([IAC, SB, 24, 1], None), ([2, IAC, SE], None)] [Negotiator 24 0]) of
      (bs, res, c) \<Rightarrow> bs = [1]
         \<and> events c = [Offer (Negotiator 24 0), HandleSB (Negotiator 24 0) [2]])
   \<and> (case drain 2 4 (fresh [([IAC, SB, 24, 1, 2, IAC, SE], None)] [Negotiator 24 0]) of
      (bs, res, c) \<Rightarrow> bs = []
         \<and> events c = [Offer (Negotiator 24 0), HandleSB (Negotiator 24 0) [1, 2]])"
  by code_simp

section \<open>Look-behind reads\<close>

text \<open>C6. The look-behind read \<^verbatim>\<open>c.buf[i-1]\<close> is not guarded by \<open>0 < i\<close>. A subnegotiation
  whose terminator arrives in the next transport read resumes at buffer index 0 with the
  parser inside the sequence; the marker of the terminator is then the byte at index 0 and
  the read of the byte before it is out of range: the second call of \<^verbatim>\<open>Read\<close> panics.
  The same happens in the terminator test when \<open>SE\<close> is the first byte of a pass. The
  last part shows the connection as the second pass finds it after its buffer fill, and the
  turn of the loop that fails.\<close>

theorem C6_lookbehind_panics:
  "fst (snd (drain 2 4 (fresh [([IAC, SB, 24, 1], None), ([IAC, SE], None)] [Negotiator 24 0])))
     = Panic
   \<and> fst (snd (drain 2 4 (fresh [([IAC, SB, 24, 1], None), ([SE], None)] [Negotiator 24 0])))
     = Panic
   \<and> (case fill (snd (snd (read (fresh [([IAC, SB, 24, 1], None), ([IAC, SE], None)]
                                 [Negotiator 24 0]) [0, 0, 0, 0]))) 4 of
        (res, c) \<Rightarrow> res = Ret None \<and> r c = 0 \<and> w c = 2 \<and> length (buf c) = 256
           \<and> iac c \<and> cmd c = SB \<and> buf c ! 0 = IAC
           \<and> read_step c [0, 0, 0, 0] 0 0 False 0 = Exit (Crash c [0, 0, 0, 0]))"
  by code_simp

section \<open>Escaped marker inside a sequence\<close>

text \<open>C7. The escaped marker inside a sequence is not removed. The statement
  \<^verbatim>\<open>copy(c.buf[:i], c.buf[i+1:])\<close> copies the bytes after position \<open>i\<close> to the start of the
  buffer: the marker at \<open>i\<close> stays, and the bytes before it, the body collected so far among
  them, are overwritten. For \<open>IAC SB 24 a IAC IAC b IAC SE\<close> the handler receives
  \<open>[0, 0, IAC, b]\<close>.\<close>

theorem C7_collapse_overwrites_buffer:
  "(case read (fresh [([IAC, SB, 24, 0x61, IAC, IAC, 0x62, IAC, SE], None)] [Negotiator 24 0])
            [0, 0, 0, 0] of
      (out, b, c) \<Rightarrow> out = Ret (0, None)
         \<and> events c = [Offer (Negotiator 24 0), HandleSB (Negotiator 24 0) [0, 0, IAC, 0x62]]
         \<and> take 9 (buf c) = [0x62, IAC, SE, 0, 0, IAC, 0x62, IAC, SE])"
  by code_simp

section \<open>Doubled marker\<close>

text \<open>C10. A doubled marker is lost when the caller's slice becomes full at the first
  marker: \<^verbatim>\<open>write(i)\<close> fills the slice with the bytes before the marker and the marker
  branch sets \<open>iac\<close>, then the loop ends, with the read position on the first marker. The
  next pass scans that marker again, now with \<open>iac\<close> set, takes it as the second of a
  pair of which nothing is left to copy, and takes the second marker as the start of a
  sequence. With one-byte slices and the wire bytes \<open>A IAC IAC\<close> followed by \<open>B C D\<close>,
  the caller receives \<open>A\<close> and \<open>D\<close>: no \<open>0xFF\<close> is delivered for the pair, and \<open>B\<close>,
  \<open>C\<close> are consumed as command and option. With room for all bytes the same wire bytes
  decode to \<open>A 0xFF B C D\<close>.\<close>

theorem C10_doubled_marker_lost:
  "fst (drain 6 1 (fresh [([0x41, IAC, IAC], None), ([0x42, 0x43, 0x44], None)] []))
     = [0x41, 0x44]
   \<and> fst (drain 6 8 (fresh [([0x41, IAC, IAC], None), ([0x42, 0x43, 0x44], None)] []))
     = [0x41, 0xFF, 0x42, 0x43, 0x44]"
  by code_simp

section \<open>The buffer-cursor invariant\<close>

lemma length_copy_at: "off \<le> length dst \<Longrightarrow> length (copy_at dst off src) = length dst"
  by (simp add: copy_at_def)

lemma inv_register: "buffer_inv (register c h) = buffer_inv c"
  by (simp add: register_def buffer_inv_def)

lemma inv_foldl_register: "buffer_inv (foldl register c hs) = buffer_inv c"
  by (induction hs arbitrary: c) (simp_all add: inv_register)

lemma inv_NewConnection: "buffer_inv (NewConnection t hs)"
  by (simp add: NewConnection_def inv_foldl_register) (simp add: buffer_inv_def)

lemma inv_compact: "buffer_inv c \<Longrightarrow> compact c = Ret c1 \<Longrightarrow> buffer_inv c1"
  by (auto simp: compact_def buffer_inv_def length_copy_at split: if_splits)

lemma inv_grow: "buffer_inv c \<Longrightarrow> grow c k = Ret c1 \<Longrightarrow> buffer_inv c1"
  by (auto simp: grow_def buffer_inv_def length_copy_at split: if_splits)

lemma Conn_Read_length: "Conn_Read t room = ((bs, e), t') \<Longrightarrow> length bs \<le> room"
  by (auto simp: Conn_Read_def split: list.splits if_splits)

lemma inv_fill:
  assumes "buffer_inv c"
  shows "buffer_inv (snd (fill c k))"
proof (cases "compact c")
  case Panic
  with assms show ?thesis by (simp add: fill_def)
next
  case (Ret c1)
  note c1 = this
  have i1: "buffer_inv c1" using assms c1 by (rule inv_compact)
  show ?thesis
  proof (cases "grow c1 k")
    case Panic
    with c1 i1 show ?thesis by (simp add: fill_def)
  next
    case (Ret c2)
    have i2: "buffer_inv c2" using i1 Ret by (rule inv_grow)
    obtain bs e t where rd: "Conn_Read (Conn c2) (length (buf c2) - w c2) = ((bs, e), t)"
      by (metis prod.exhaust)
    from Conn_Read_length [OF rd] i2 have "w c2 + length bs \<le> length (buf c2)"
      by (auto simp: buffer_inv_def)
    with i2 c1 Ret rd show ?thesis
      by (simp add: fill_def buffer_inv_def length_copy_at)
  qed
qed

lemma frame_handleNegotiation:
  "buf (snd (handleNegotiation c)) = buf c \<and> r (snd (handleNegotiation c)) = r c
   \<and> w (snd (handleNegotiation c)) = w c"
  by (simp add: handleNegotiation_def writeBytes_def split: option.splits prod.splits)

lemma inv_write_b:
  "write_b c b l n endp = Some (c1, b1, l1, n1) \<Longrightarrow> buffer_inv c \<Longrightarrow> endp \<le> w c
   \<Longrightarrow> buf c1 = buf c \<and> w c1 = w c \<and> r c1 \<le> endp"
  by (auto simp: write_b_def Let_def buffer_inv_def split: if_splits)

lemma inv_escaped_text:
  "buffer_inv c \<Longrightarrow> i < w c \<Longrightarrow> step_inv (escaped_text c b l n i)"
  by (auto simp: escaped_text_def step_inv_def buffer_inv_def dest!: inv_write_b
      split: option.splits)

lemma inv_start_sequence:
  "buffer_inv c \<Longrightarrow> i < w c \<Longrightarrow> step_inv (start_sequence c b l n i)"
  by (auto simp: start_sequence_def step_inv_def buffer_inv_def dest!: inv_write_b
      split: option.splits)

lemma inv_escaped_inside:
  "buffer_inv c \<Longrightarrow> i < w c \<Longrightarrow> step_inv (escaped_inside c b l n i)"
  by (simp add: escaped_inside_def step_inv_def buffer_inv_def length_copy_at)

lemma inv_take_command:
  "buffer_inv c \<Longrightarrow> i < w c \<Longrightarrow> step_inv (take_command c b l n i ch)"
  by (simp add: take_command_def step_inv_def buffer_inv_def)

lemma inv_take_option:
  assumes "buffer_inv c" "i < w c"
  shows "step_inv (take_option c b l n i ch)"
proof -
  obtain res c3 where hn: "handleNegotiation (c\<lparr>option := ch\<rparr>) = (res, c3)"
    by (metis prod.exhaust)
  have "buf c3 = buf c" "r c3 = r c" "w c3 = w c"
    using frame_handleNegotiation [of "c\<lparr>option := ch\<rparr>"] hn by simp_all
  with assms hn show ?thesis
    by (simp add: take_option_def step_inv_def buffer_inv_def endIAC_def split: option.splits)
qed

lemma inv_end_subnegotiation:
  "buffer_inv c \<Longrightarrow> i < w c \<Longrightarrow> step_inv (end_subnegotiation c b l n i)"
  by (simp add: end_subnegotiation_def step_inv_def buffer_inv_def endIAC_def
      split: option.splits)

lemma inv_read_step:
  assumes "buffer_inv c" "i < w c"
  shows "step_inv (read_step c b l n g i)"
proof (rule read_step_cases)
  show "step_inv (Exit (Crash c b))" "step_inv (Continue c b l n False (i + 1))"
    using assms by (simp_all add: step_inv_def)
qed (simp_all add: assms inv_escaped_text inv_start_sequence inv_escaped_inside
      inv_take_command inv_take_option inv_end_subnegotiation)

lemma inv_read_loop:
  "buffer_inv c \<Longrightarrow> buffer_inv (exit_conn (read_loop c b l n g i))"
  by (erule read_loop_preserves) (use inv_read_step in \<open>simp add: step_inv_def\<close>)
lemma inv_read:
  assumes "buffer_inv c"
  shows "buffer_inv (snd (snd (read c b)))"
proof -
  obtain res c1 where f: "fill c (length b) = (res, c1)" by (metis prod.exhaust)
  have i1: "buffer_inv c1" using inv_fill [OF assms, of "length b"] f by simp
  show ?thesis
  proof (cases "res = Ret None")
    case False
    with f i1 show ?thesis
      by (cases res) (auto simp: read_def split: option.splits)
  next
    case True
    have "buffer_inv (exit_conn (read_loop c1 b 0 0 False (r c1)))"
      using i1 by (rule inv_read_loop)
    with f True show ?thesis
      by (cases "read_loop c1 b 0 0 False (r c1)")
         (auto simp: read_def Let_def buffer_inv_def)
  qed
qed

lemma inv_Read: "buffer_inv c \<Longrightarrow> buffer_inv (snd (snd (Read c b)))"
  unfolding Read_def by (erule Read_loop_preserves) (rule inv_read)

lemma inv_Write: "buffer_inv (snd (Write c b)) = buffer_inv c"
  by (simp add: Write_def buffer_inv_def split: prod.splits)

lemma inv_drain: "buffer_inv c \<Longrightarrow> buffer_inv (snd (snd (drain k room c)))"
proof (induction k arbitrary: c)
  case 0
  then show ?case by simp
next
  case (Suc k)
  obtain out b1 c1 where rd: "Read c (replicate room 0) = (out, b1, c1)"
    by (metis prod_cases3)
  have i1: "buffer_inv c1" using inv_Read [OF Suc(2), of "replicate room 0"] rd by simp
  show ?case
  proof (cases out)
    case Panic
    with rd i1 show ?thesis by simp
  next
    case (Ret ne)
    obtain n e where ne: "ne = (n, e)" by (cases ne)
    show ?thesis
    proof (cases e)
      case None
      with Suc(1) [OF i1] rd Ret ne show ?thesis
        by (auto split: prod.splits)
    next
      case (Some a)
      with rd Ret ne i1 show ?thesis by simp
    qed
  qed
qed

text \<open>C8. The invariant \<open>0 \<le> readPos \<le> writePos \<le> len(buffer)\<close> holds for a new
  connection, and every buffer fill (with compaction and growth), every decode pass, every
  call of \<^verbatim>\<open>Read\<close>, every sequence of calls of \<^verbatim>\<open>Read\<close> and every call of
  \<^verbatim>\<open>Write\<close> preserves it, whatever the outcome of the operation.\<close>

theorem C8_buffer_cursor_invariant:
  "buffer_inv (NewConnection t hs)
   \<and> (buffer_inv c \<longrightarrow>
        buffer_inv (snd (fill c k)) \<and> buffer_inv (snd (snd (read c b)))
        \<and> buffer_inv (snd (snd (Read c b))) \<and> buffer_inv (snd (Write c b'))
        \<and> buffer_inv (snd (snd (drain m room c))))"
  by (simp add: inv_NewConnection inv_fill inv_read inv_Read inv_Write inv_drain)

theorem C8_buffer_cursor_invariant_witness:
  "buffer_inv (fresh [([0x41, IAC, IAC, 0x42], None)] [])
   \<and> buffer_inv (snd (fill (fresh [([0x41, IAC, IAC, 0x42], None)] []) 300))
   \<and> buffer_inv (snd (snd (read (fresh [([0x41, IAC, IAC, 0x42], None)] []) [0, 0])))
   \<and> buffer_inv (snd (snd (Read (fresh [([0x41, IAC, IAC, 0x42], None)] []) [0, 0])))
   \<and> buffer_inv (snd (Write (fresh [([0x41, IAC, IAC, 0x42], None)] []) [1, IAC]))
   \<and> buffer_inv (snd (snd (drain 3 2 (fresh [([0x41, IAC, IAC, 0x42], None)] []))))
   \<and> r (snd (snd (read (fresh [([0x41, IAC, IAC, 0x42], None)] []) [0, 0]))) = 3
   \<and> w (snd (snd (read (fresh [([0x41, IAC, IAC, 0x42], None)] []) [0, 0]))) = 4
   \<and> length (buf (snd (fill (fresh [([0x41, IAC, IAC, 0x42], None)] []) 300))) = 300"
proof -
  have h: "buffer_inv (fresh [([0x41, IAC, IAC, 0x42], None)] [])"
    by code_simp
  have v: "r (snd (snd (read (fresh [([0x41, IAC, IAC, 0x42], None)] []) [0, 0]))) = 3"
    "w (snd (snd (read (fresh [([0x41, IAC, IAC, 0x42], None)] []) [0, 0]))) = 4"
    "length (buf (snd (fill (fresh [([0x41, IAC, IAC, 0x42], None)] []) 300))) = 300"
    by code_simp+
  from C8_buffer_cursor_invariant
    [of "\<lparr>rd = [([0x41, IAC, IAC, 0x42], None)], wr = [], wire = []\<rparr>" "[]"
        "fresh [([0x41, IAC, IAC, 0x42], None)] []" 300 "[0, 0]" "[1, IAC]" 3 2]
    h v
  show ?thesis by (simp add: fresh_def)
qed

section \<open>The retry loop of Read\<close>

lemma length_write_b:
  "write_b c b l n endp = Some (c1, b1, l1, n1) \<Longrightarrow> l \<le> length b
   \<Longrightarrow> length b1 = length b \<and> l1 \<le> length b"
  by (auto simp: write_b_def Let_def length_copy_at split: if_splits)

lemma locals_read_step:
  assumes "l \<le> length b"
  shows "step_locals (length b) (read_step c b l n g i)"
proof (rule read_step_cases)
  show "step_locals (length b) (escaped_text c b l n i)"
    using assms
    by (auto simp: escaped_text_def step_locals_def dest!: length_write_b split: option.splits)
  show "step_locals (length b) (start_sequence c b l n i)"
    using assms
    by (auto simp: start_sequence_def step_locals_def dest!: length_write_b split: option.splits)
  show "step_locals (length b) (take_option c b l n i (buf c ! i))"
    using assms
    by (simp add: take_option_def step_locals_def split: prod.splits option.splits)
qed (simp_all add: assms step_locals_def escaped_inside_def take_command_def
      end_subnegotiation_def split: option.splits)

lemma locals_read_loop:
  "l \<le> length b \<Longrightarrow> step_locals (length b) (Exit (read_loop c b l n g i))"
proof (induction c b l n g i rule: read_loop.induct)
  case (1 c b lastWrite n ignoreIAC i)
  show ?case
  proof (cases "i < w c \<and> lastWrite < length b")
    case False
    then have "read_loop c b lastWrite n ignoreIAC i = Break c b lastWrite n"
      by (subst read_loop.simps) auto
    with 1(2) show ?thesis by (simp add: step_locals_def)
  next
    case True
    show ?thesis
    proof (cases "read_step c b lastWrite n ignoreIAC i")
      case (Continue c1 b1 l1 n1 g1 i1)
      with locals_read_step [OF 1(2), of c n ignoreIAC i]
      have *: "length b1 = length b" "l1 \<le> length b1" by (simp_all add: step_locals_def)
      from 1(1) [OF True Continue *(2)] * True Continue show ?thesis
        by (simp add: read_loop.simps [of c])
    next
      case (Exit x)
      with locals_read_step [OF 1(2), of c n ignoreIAC i] True show ?thesis
        by (simp add: read_loop.simps [of c])
    qed
  qed
qed

lemma length_read: "length (fst (snd (read c b))) = length b"
proof -
  obtain res c1 where f: "fill c (length b) = (res, c1)" by (metis prod.exhaust)
  show ?thesis
  proof (cases "res = Ret None")
    case False
    with f show ?thesis
      by (cases res) (auto simp: read_def split: option.splits)
  next
    case True
    from locals_read_loop [of 0 b c1 0 False "r c1"] f True show ?thesis
      by (cases "read_loop c1 b 0 0 False (r c1)")
         (auto simp: read_def Let_def step_locals_def length_copy_at)
  qed
qed

lemma Read_loop_trace:
  assumes "i < maxReadAttempts" "b \<noteq> []" "Read_loop i 0 err c b = (k, out, b', c')"
  shows "\<exists>m. k = i + m \<and> 1 \<le> m \<and> k \<le> maxReadAttempts
           \<and> length (passes m c b) = m \<and> last (passes m c b) = (out, b', c')
           \<and> (\<forall>j. Suc j < m \<longrightarrow> (\<exists>e. fst (passes m c b ! j) = Ret (0, e)))
           \<and> (k < maxReadAttempts \<longrightarrow> out = Panic \<or> (\<exists>n e. out = Ret (n, e) \<and> 0 < n))"
  using assms
proof (induction "maxReadAttempts - i" arbitrary: i err c b)
  case 0
  then show ?case by simp
next
  case (Suc d)
  obtain res b1 c1 where rd: "read c b = (res, b1, c1)" by (metis prod_cases3)
  have len: "length b1 = length b" using length_read [of c b] rd by simp
  show ?case
  proof (cases res)
    case Panic
    with Suc(3,4,5) rd have "k = i + 1" "out = Panic" "b' = b1" "c' = c1"
      by (simp_all add: Read_loop_Panic)
    with Suc(3) rd Panic show ?thesis
      by (intro exI [of _ 1]) simp
  next
    case (Ret ne)
    obtain n1 e1 where ne: "ne = (n1, e1)" by (cases ne)
    have next_eq: "Read_loop (i + 1) n1 e1 c1 b1 = (k, out, b', c')"
      using Suc(3,4,5) rd Ret ne by (simp add: Read_loop_Ret)
    show ?thesis
    proof (cases "i + 1 < maxReadAttempts \<and> n1 = 0")
      case False
      then have "\<not> (i + 1 < maxReadAttempts \<and> n1 = 0 \<and> 0 < length b1)" by simp
      from Read_loop_stop [OF this, of e1 c1] next_eq
      have "k = i + 1" "out = Ret (n1, e1)" "b' = b1" "c' = c1" by simp_all
      with Suc(3) rd Ret ne False show ?thesis
        by (intro exI [of _ 1]) auto
    next
      case True
      then have i1: "i + 1 < maxReadAttempts" and n1: "n1 = 0" by simp_all
      have b1: "b1 \<noteq> []" using len Suc(4) by auto
      have d: "d = maxReadAttempts - (i + 1)" using Suc(2) by simp
      from Suc(1) [OF d i1 b1] next_eq n1 obtain m where m:
        "k = i + 1 + m" "1 \<le> m" "k \<le> maxReadAttempts"
        "length (passes m c1 b1) = m" "last (passes m c1 b1) = (out, b', c')"
        "\<forall>j. Suc j < m \<longrightarrow> (\<exists>e. fst (passes m c1 b1 ! j) = Ret (0, e))"
        "k < maxReadAttempts \<longrightarrow> out = Panic \<or> (\<exists>n e. out = Ret (n, e) \<and> 0 < n)"
        by blast
      have ps: "passes (Suc m) c b = (Ret (0, e1), b1, c1) # passes m c1 b1"
        using rd Ret ne n1 by simp
      have ne_nil: "passes m c1 b1 \<noteq> []" using m(2,4) by auto
      have nth: "\<exists>e. fst (passes (Suc m) c b ! j) = Ret (0, e)" if "Suc j < Suc m" for j
      proof (cases j)
        case 0
        then show ?thesis by (simp add: ps del: passes.simps)
      next
        case (Suc j')
        with that m(6) show ?thesis by (simp add: ps del: passes.simps)
      qed
      show ?thesis
        using m ps ne_nil nth
        by (intro exI [of _ "Suc m"]) (simp del: passes.simps)
    qed
  qed
qed

text \<open>C9. An error does not stop the retry loop. The loop condition of \<^verbatim>\<open>Read\<close> tests
  the attempt counter, \<open>n = 0\<close> and the length of the slice, not \<open>err\<close>; a pass that
  fails returns \<open>n = 0\<close>, so the next pass is made and its result overwrites the error.
  The doc comment of \<^verbatim>\<open>Read\<close> gives control bytes stripped from the stream as the reason
  for further attempts, and \<^verbatim>\<open>read\<close> and \<^verbatim>\<open>Write\<close> return at once on every error.
  Here the first pass fails with a transport error, a second pass is made, and \<^verbatim>\<open>Read\<close>
  returns one byte and no error: the caller never sees the error.\<close>

theorem C9_error_does_not_stop_Read:
  "fst (read (fresh [([], Some (NetError 1)), ([0x41], None)] []) [0]) = Ret (0, Some (NetError 1))
   \<and> fst (Read_loop 0 0 None (fresh [([], Some (NetError 1)), ([0x41], None)] []) [0]) = 2
   \<and> fst (Read (fresh [([], Some (NetError 1)), ([0x41], None)] []) [0]) = Ret (1, None)"
  by code_simp

text \<open>The loop of \<^verbatim>\<open>Read\<close> on every input: it makes at most 10 decode passes, and none
  when the caller's slice is empty. With a non-empty slice it makes at least one pass; every
  pass but the last returned zero bytes, with or without an error; the result is that of
  the last pass; and the loop ends before the tenth pass only when a pass produced at
  least one byte or panicked.\<close>

lemma Read_passes_made:
  assumes "Read_loop 0 0 None c b = (k, out, b', c')"
  shows "maxReadAttempts = 10 \<and> k \<le> 10 \<and> Read c b = (out, b', c')
     \<and> (b = [] \<longrightarrow> k = 0 \<and> out = Ret (0, None) \<and> b' = b \<and> c' = c)
     \<and> (b \<noteq> [] \<longrightarrow> 1 \<le> k \<and> length (passes k c b) = k
           \<and> last (passes k c b) = (out, b', c')
           \<and> (\<forall>j. Suc j < k \<longrightarrow> (\<exists>e. fst (passes k c b ! j) = Ret (0, e)))
           \<and> (k < 10 \<longrightarrow> out = Panic \<or> (\<exists>n e. out = Ret (n, e) \<and> 0 < n)))"
proof (cases "b = []")
  case True
  then have "Read_loop 0 0 None c b = (0, Ret (0, None), b, c)"
    by (intro Read_loop_stop) simp
  with assms True show ?thesis
    by (simp add: maxReadAttempts_def Read_def)
next
  case False
  have "0 < maxReadAttempts" by (simp add: maxReadAttempts_def)
  from Read_loop_trace [OF this False assms] obtain m where
    "k = 0 + m" "1 \<le> m" "k \<le> maxReadAttempts"
    "length (passes m c b) = m" "last (passes m c b) = (out, b', c')"
    "\<forall>j. Suc j < m \<longrightarrow> (\<exists>e. fst (passes m c b ! j) = Ret (0, e))"
    "k < maxReadAttempts \<longrightarrow> out = Panic \<or> (\<exists>n e. out = Ret (n, e) \<and> 0 < n)"
    by blast
  with assms False show ?thesis
    by (simp add: maxReadAttempts_def Read_def)
qed

section \<open>The count returned by Write\<close>

lemma writes_until_refl: "writes_until s None s"
  unfolding writes_until_def by (simp, rule exI [of _ 0]) simp

lemma writes_until_trans:
  assumes "writes_until s None s1" "writes_until s1 err s2"
  shows "writes_until s err s2"
proof -
  from assms(1) obtain k where k: "s1 = drop k s" "\<forall>j<k. j < length s \<longrightarrow> s ! j = None"
    by (auto simp: writes_until_def)
  show ?thesis
  proof (cases err)
    case None
    with assms(2) obtain k' where k': "s2 = drop k' s1"
      "\<forall>j<k'. j < length s1 \<longrightarrow> s1 ! j = None"
      by (auto simp: writes_until_def)
    have "s ! j = None" if "j < k' + k" "j < length s" for j
    proof (cases "j < k")
      case True
      with k(2) that show ?thesis by simp
    next
      case False
      then have "s1 ! (j - k) = s ! j" using k(1) that by simp
      moreover have "j - k < k'" "j - k < length s1" using False that k(1) by auto
      ultimately show ?thesis using k'(2) by metis
    qed
    with k'(1) k(1) None show ?thesis
      unfolding writes_until_def by (simp, intro exI [of _ "k' + k"]) simp
  next
    case (Some e)
    with assms(2) obtain k' m where k': "k' < length s1" "s1 ! k' = Some (m, e)"
      "\<forall>j<k'. s1 ! j = None" "s2 = drop (Suc k') s1"
      by (auto simp: writes_until_def)
    have lt: "k + k' < length s" using k'(1) k(1) by simp
    have at: "s ! (k + k') = Some (m, e)" using k'(2) k(1) lt by simp
    have "s ! j = None" if "j < k + k'" for j
    proof (cases "j < k")
      case True
      with k(2) that lt show ?thesis by simp
    next
      case False
      then have "s1 ! (j - k) = s ! j" using k(1) that lt by simp
      moreover have "j - k < k'" using False that by auto
      ultimately show ?thesis using k'(3) by metis
    qed
    with lt at k'(4) k(1) Some show ?thesis
      unfolding writes_until_def
      by (simp, intro exI [of _ "k + k'"]) (simp add: add.commute)
  qed
qed

lemma Conn_Write_sound:
  assumes "Conn_Write t p = ((nn, err), t')"
  shows "writes_until (wr t) err (wr t') \<and> wire t' = wire t @ take nn p \<and> nn \<le> length p
         \<and> (err = None \<longrightarrow> nn = length p)"
proof (cases "wr t")
  case Nil
  with assms show ?thesis
    by (auto simp: Conn_Write_def writes_until_refl)
next
  case (Cons a rest)
  show ?thesis
  proof (cases a)
    case None
    have "writes_until (None # rest) None rest"
      unfolding writes_until_def by (simp, intro exI [of _ 1]) simp
    with assms Cons None show ?thesis
      by (auto simp: Conn_Write_def)
  next
    case (Some ke)
    obtain k e where ke: "ke = (k, e)" by (cases ke)
    have "writes_until (Some (k, e) # rest) (Some e) rest"
      unfolding writes_until_def by (simp, intro exI [of _ 0]) simp
    with assms Cons Some ke show ?thesis
      by (auto simp: Conn_Write_def)
  qed
qed

lemma write_sound_Conn_Write:
  "Conn_Write t p = ((nn, err), t') \<Longrightarrow> write_sound n t ((n + nn, err), t')"
  using Conn_Write_sound [of t p nn err t'] by (auto simp: write_sound_def)

lemma write_sound_refl: "write_sound n t ((n, None), t)"
  by (simp add: write_sound_def writes_until_refl)

lemma write_sound_trans:
  assumes "write_sound n t ((n1, None), t1)" "write_sound n1 t1 res"
  shows "write_sound n t res"
  using assms writes_until_trans [of "wr t" "wr t1" "snd (fst res)" "wr (snd res)"]
  by (auto simp: write_sound_def)

lemma write_sound_flush_run: "write_sound n t (flush_run b lastWrite i n t)"
  by (auto simp: flush_run_def write_sound_refl write_sound_Conn_Write split: prod.splits)

lemma Write_loop_sound: "write_sound n t (Write_loop b i lastWrite n t)"
proof (induction b i lastWrite n t rule: Write_loop.induct)
  case (1 b i lastWrite n t)
  show ?case
  proof (cases "i < length b")
    case False
    then show ?thesis
      by (subst Write_loop.simps)
         (auto simp: write_sound_refl write_sound_Conn_Write split: prod.splits)
  next
    case True
    note i = this
    show ?thesis
    proof (cases "b ! i = IAC")
      case False
      with 1(2) [OF i False] i show ?thesis
        by (subst Write_loop.simps) simp
    next
      case True
      obtain n1 e1 t1 where fl: "flush_run b lastWrite i n t = ((n1, e1), t1)"
        by (metis prod.exhaust)
      have s1: "write_sound n t ((n1, e1), t1)"
        using write_sound_flush_run [of n t b lastWrite i] fl by simp
      show ?thesis
      proof (cases e1)
        case (Some e)
        with s1 fl i True show ?thesis
          by (subst Write_loop.simps) simp
      next
        case None
        obtain nn e2 t2 where cw: "Conn_Write t1 [IAC, IAC] = ((nn, e2), t2)"
          by (metis prod.exhaust)
        have s2: "write_sound n1 t1 ((n1 + nn, e2), t2)"
          using cw by (rule write_sound_Conn_Write)
        show ?thesis
        proof (cases e2)
          case (Some e)
          from write_sound_trans [OF s1 [unfolded None] s2] Some fl None cw i True
          show ?thesis
            by (subst Write_loop.simps) simp
        next
          case e2: None
          have "write_sound (n1 + nn) t2 (Write_loop b (i + 1) (i + 1) (n1 + nn) t2)"
            using 1(1) [OF i True fl [symmetric] refl None cw [symmetric] refl e2] by simp
          from write_sound_trans [OF write_sound_trans [OF s1 [unfolded None] s2 [unfolded e2]] this]
            fl None cw e2 i True
          show ?thesis
            by (subst Write_loop.simps) simp
        qed
      qed
    qed
  qed
qed

lemma Write_loop_plain:
  "\<forall>j. i \<le> j \<and> j < length b \<longrightarrow> b ! j \<noteq> IAC \<Longrightarrow>
   Write_loop b i lastWrite n t =
     (if lastWrite < length b
      then (case Conn_Write t (drop lastWrite b) of ((nn, err), t') \<Rightarrow> ((n + nn, err), t'))
      else ((n, None), t))"
proof (induction "length b - i" arbitrary: i)
  case 0
  then show ?case by (subst Write_loop.simps) simp
next
  case (Suc d)
  then have i: "i < length b" and ni: "b ! i \<noteq> IAC" by auto
  have "Write_loop b i lastWrite n t = Write_loop b (i + 1) lastWrite n t"
    using i ni by (subst Write_loop.simps) simp
  also have "\<dots> = (if lastWrite < length b
      then (case Conn_Write t (drop lastWrite b) of ((nn, err), t') \<Rightarrow> ((n + nn, err), t'))
      else ((n, None), t))"
    using Suc(2,3) by (intro Suc(1)) auto
  finally show ?case .
qed

text \<open>C5. \<^verbatim>\<open>Write\<close> does not return the number of input bytes accepted. After the write
  of the escape pair it adds the two wire bytes to \<open>n\<close> (lines 82-83), so every marker of
  the input counts twice: for the input \<open>[0xFF]\<close> it returns 2, more than \<open>len(b)\<close>.
  \<^verbatim>\<open>Write\<close> stands in for the \<^verbatim>\<open>Write\<close> of the embedded \<^verbatim>\<open>net.Conn\<close> and is handed to
  \<^verbatim>\<open>fmt.Fprintf\<close> as an \<^verbatim>\<open>io.Writer\<close> in \<^verbatim>\<open>SetWindowTitle\<close>, where a count above the
  length of the input is not valid. When the write of the pair fails after one byte, behind
  a flushed run of two bytes, \<^verbatim>\<open>Write\<close> returns 3, though two input bytes were forwarded
  in full.\<close>

theorem C5_Write_counts_wire_bytes_not_input:
  "fst (Write (fresh [] []) [0xFF]) = (2, None)
   \<and> fst (fst (Write (fresh [] []) [0xFF])) \<noteq> length [0xFF :: byte]
   \<and> fst (Write (NewConnection \<lparr>rd = [], wr = [None, Some (1, NetError 7)], wire = []\<rparr> [])
             [0x41, 0x42, 0xFF, 0x43]) = (3, Some (NetError 7))"
  by code_simp

text \<open>The count of \<^verbatim>\<open>Write\<close> on every input: it is the number of bytes the call added
  to the wire. When the input holds no \<open>0xFF\<close> and no underlying write fails, that is the
  length of the input, and the wire carries the input unchanged. When an underlying write
  fails, the call ends with that write: it is the first failing one and the last one
  made.\<close>

lemma Write_returns_wire_count:
  assumes "Write c b = ((n, err), c')"
  shows "(\<exists>out. wire (Conn c') = wire (Conn c) @ out \<and> n = length out)
     \<and> (IAC \<notin> set b \<and> err = None \<longrightarrow> n = length b \<and> wire (Conn c') = wire (Conn c) @ b)
     \<and> (\<forall>e. err = Some e \<longrightarrow>
           (\<exists>k m. k < length (wr (Conn c)) \<and> wr (Conn c) ! k = Some (m, e)
                  \<and> (\<forall>j<k. wr (Conn c) ! j = None)
                  \<and> wr (Conn c') = drop (Suc k) (wr (Conn c))))"
proof -
  from assms have wl: "Write_loop b 0 0 0 (Conn c) = ((n, err), Conn c')"
    by (auto simp: Write_def Write_t_def split: prod.splits)
  from Write_loop_sound [of 0 "Conn c" b 0 0] wl
  have ws: "writes_until (wr (Conn c)) err (wr (Conn c'))"
    and out: "\<exists>out. wire (Conn c') = wire (Conn c) @ out \<and> n = length out"
    by (simp_all add: write_sound_def)
  have plain: "n = length b \<and> wire (Conn c') = wire (Conn c) @ b"
    if "IAC \<notin> set b" "err = None"
  proof (cases "b = []")
    case True
    with wl show ?thesis by (simp add: Write_loop.simps [of "[]"])
  next
    case False
    have "\<forall>j. 0 \<le> j \<and> j < length b \<longrightarrow> b ! j \<noteq> IAC"
      using that(1) by (metis nth_mem)
    from Write_loop_plain [OF this, of 0 0 "Conn c"] wl False
    have cw: "Conn_Write (Conn c) b = ((n, err), Conn c')"
      by (cases "Conn_Write (Conn c) b") auto
    from Conn_Write_sound [OF cw] that(2) show ?thesis by simp
  qed
  from ws have "\<exists>k m. k < length (wr (Conn c)) \<and> wr (Conn c) ! k = Some (m, e)
                  \<and> (\<forall>j<k. wr (Conn c) ! j = None)
                  \<and> wr (Conn c') = drop (Suc k) (wr (Conn c))" if "err = Some e" for e
    using that by (simp add: writes_until_def)
  with out plain show ?thesis by blast
qed

section \<open>Negotiation dispatch\<close>

lemma compact_empty:
  assumes "r c = w c" "w c \<le> length (buf c)"
  shows "\<exists>bf. compact c = Ret (c\<lparr>buf := bf, r := 0, w := 0\<rparr>) \<and> length bf = length (buf c)"
proof (cases "0 < r c")
  case True
  with assms show ?thesis
    by (intro exI [of _ "copy_at (buf c) 0 (drop (r c) (buf c))"])
       (simp add: compact_def length_copy_at)
next
  case False
  with assms have "c\<lparr>buf := buf c, r := 0, w := 0\<rparr> = c" by simp
  with False show ?thesis
    by (intro exI [of _ "buf c"]) (simp add: compact_def)
qed

lemma grow_empty:
  assumes "r c = 0" "w c = 0"
  shows "\<exists>bf. grow c k = Ret (c\<lparr>buf := bf\<rparr>) \<and> length bf = max k (length (buf c))"
proof (cases "length (buf c) < k")
  case True
  with assms have "c\<lparr>buf := bf, w := 0, r := 0\<rparr> = c\<lparr>buf := bf\<rparr>" for bf by simp
  with True assms show ?thesis
    by (intro exI [of _ "copy_at (replicate k 0) 0 (slice (buf c) 0 0)"])
       (simp add: grow_def length_copy_at)
next
  case False
  then show ?thesis
    by (intro exI [of _ "buf c"]) (simp add: grow_def)
qed

lemma fill_chunk:
  assumes "r c = w c" "w c \<le> length (buf c)" "length chunk \<le> length (buf c)"
    and "rd (Conn c) = (chunk, None) # rest"
  shows "\<exists>bf. fill c k = (Ret None, c\<lparr>Conn := (Conn c)\<lparr>rd := rest\<rparr>, buf := chunk @ bf,
                                      r := 0, w := length chunk\<rparr>)"
proof -
  from compact_empty [OF assms(1,2)] obtain bf1 where
    c1: "compact c = Ret (c\<lparr>buf := bf1, r := 0, w := 0\<rparr>)" "length bf1 = length (buf c)"
    by blast
  define c1 where "c1 = c\<lparr>buf := bf1, r := 0, w := 0\<rparr>"
  have c1': "r c1 = 0" "w c1 = 0" "buf c1 = bf1" "Conn c1 = Conn c"
    by (simp_all add: c1_def)
  from grow_empty [OF c1'(1,2), of k] obtain bf2 where
    c2: "grow c1 k = Ret (c1\<lparr>buf := bf2\<rparr>)" "length bf2 = max k (length (buf c1))"
    by blast
  have fit: "length chunk \<le> length bf2" using c2(2) c1(2) c1'(3) assms(3) by simp
  have cr: "Conn_Read (Conn c) (length bf2) = ((chunk, None), (Conn c)\<lparr>rd := rest\<rparr>)"
    using assms(4) fit by (simp add: Conn_Read_def)
  have cp: "copy_at bf2 0 chunk = chunk @ drop (length chunk) bf2"
    using fit by (simp add: copy_at_def)
  have "fill c k = (Ret None, c1\<lparr>buf := bf2\<rparr>\<lparr>Conn := (Conn c)\<lparr>rd := rest\<rparr>,
                                   buf := chunk @ drop (length chunk) bf2, w := length chunk\<rparr>)"
    using c1(1) c2(1) cr cp c1' by (simp add: fill_def c1_def [symmetric])
  then show ?thesis
    by (intro exI [of _ "drop (length chunk) bf2"]) (simp add: c1_def)
qed

lemma step_start:
  assumes "\<not> iac c" "i < length (buf c)" "buf c ! i = IAC" "r c = i"
  shows "read_step c b l n False i = Continue (c\<lparr>iac := True\<rparr>) b l n False (i + 1)"
  using assms by (simp add: read_step_def start_sequence_def write_b_def)

lemma step_command:
  assumes "iac c" "cmd c = 0" "i < length (buf c)" "buf c ! i \<noteq> IAC" "buf c ! i \<noteq> SB"
  shows "read_step c b l n False i = Continue (c\<lparr>cmd := buf c ! i\<rparr>) b l n False (i + 1)"
  using assms by (simp add: read_step_def take_command_def Let_def)

lemma step_option:
  assumes "iac c" "cmd c \<noteq> 0" "option c = 0" "0 < i" "i < length (buf c)"
    "buf c ! (i - 1) \<noteq> IAC"
  shows "read_step c b l n False i = take_option c b l n i (buf c ! i)"
  using assms by (simp add: read_step_def Let_def)

lemma frame_handleNegotiation':
  "handleNegotiation c = (res, c1) \<Longrightarrow> buf c1 = buf c \<and> r c1 = r c \<and> w c1 = w c"
  using frame_handleNegotiation [of c] by simp

lemma negotiation_loop:
  assumes "idle c" "r c = 0" "w c = 3" "3 \<le> length (buf c)" "b \<noteq> []"
    and "buf c ! 0 = IAC" "buf c ! 1 = x" "buf c ! 2 = ob"
    and "x \<noteq> 0" "x \<noteq> IAC" "x \<noteq> SB"
    and "handleNegotiation (c\<lparr>iac := True, cmd := x, option := ob\<rparr>) = (res, c3)"
  shows "read_loop c b 0 0 False 0 =
           (case snd res of Some e \<Rightarrow> Fail e c3 b | None \<Rightarrow> Break (endIAC c3 2) b 0 0)"
proof -
  define c1 where "c1 = c\<lparr>iac := True\<rparr>"
  define c2 where "c2 = c1\<lparr>cmd := x\<rparr>"
  have len: "0 < length (buf c)" "1 < length (buf c)" "2 < length (buf c)"
    using assms(4) by auto
  have s0: "read_step c b 0 0 False 0 = Continue c1 b 0 0 False 1"
    using assms(1,2,6) len(1) step_start [of c 0 b 0 0] by (simp add: idle_def c1_def)
  have s1: "read_step c1 b 0 0 False 1 = Continue c2 b 0 0 False 2"
    using assms(1,7,10,11) len(2) step_command [of c1 1 b 0 0]
    by (simp add: idle_def c1_def c2_def)
  have s2: "read_step c2 b 0 0 False 2 = take_option c2 b 0 0 2 ob"
    using assms(1,7,8,9,10) len(3) step_option [of c2 2 b 0 0]
    by (simp add: idle_def c1_def c2_def)
  have hn: "handleNegotiation (c2\<lparr>option := ob\<rparr>) = (res, c3)"
    using assms(12) by (simp add: c1_def c2_def)
  have w3: "w c3 = 3" using frame_handleNegotiation' [OF hn] assms(3)
    by (simp add: c1_def c2_def)
  have to: "take_option c2 b 0 0 2 ob =
              (case snd res of Some e \<Rightarrow> Exit (Fail e c3 b)
               | None \<Rightarrow> Continue (endIAC c3 2) b 0 0 False 3)"
    using assms(11) hn by (simp add: take_option_def c2_def split: option.splits)
  have l3: "read_loop (endIAC c3 2) b 0 0 False 3 = Break (endIAC c3 2) b 0 0"
    using w3 by (subst read_loop.simps) (simp add: endIAC_def)
  have l2: "read_loop c2 b 0 0 False 2 =
              (case snd res of Some e \<Rightarrow> Fail e c3 b | None \<Rightarrow> Break (endIAC c3 2) b 0 0)"
    using assms(3,5) s2 to l3
    by (subst read_loop.simps) (simp add: c1_def c2_def split: option.splits)
  have l1: "read_loop c1 b 0 0 False 1 = read_loop c2 b 0 0 False 2"
    using assms(3,5) s1 by (subst read_loop.simps) (simp add: c1_def)
  have l0: "read_loop c b 0 0 False 0 = read_loop c1 b 0 0 False 1"
    using assms(3,5) s0 by (subst read_loop.simps) simp
  from l0 l1 l2 show ?thesis by simp
qed

lemma keeps_handleNegotiation: "keeps S T c \<Longrightarrow> keeps S T (snd (handleNegotiation c))"
  by (auto simp: keeps_def handleNegotiation_def writeBytes_def split: option.splits prod.splits)

lemma sets_write_b:
  "write_b c b l n endp = Some (c1, b1, l1, n1)
   \<Longrightarrow> clientWont c1 = clientWont c \<and> clientDont c1 = clientDont c"
  by (auto simp: write_b_def Let_def split: if_splits)

lemma sets_compact: "compact c = Ret c1 \<Longrightarrow> clientWont c1 = clientWont c \<and> clientDont c1 = clientDont c"
  by (auto simp: compact_def split: if_splits)

lemma sets_grow: "grow c k = Ret c1 \<Longrightarrow> clientWont c1 = clientWont c \<and> clientDont c1 = clientDont c"
  by (auto simp: grow_def split: if_splits)

lemma sets_fill:
  "clientWont (snd (fill c k)) = clientWont c \<and> clientDont (snd (fill c k)) = clientDont c"
proof (cases "compact c")
  case Panic
  then show ?thesis by (simp add: fill_def)
next
  case (Ret c1)
  note c1 = this
  show ?thesis
  proof (cases "grow c1 k")
    case Panic
    with c1 sets_compact [OF c1] show ?thesis by (simp add: fill_def)
  next
    case (Ret c2)
    with c1 sets_compact [OF c1] sets_grow [OF Ret] show ?thesis
      by (simp add: fill_def split: prod.splits)
  qed
qed

lemma keeps_read_step:
  assumes "keeps S T c"
  shows "step_all (keeps S T) (read_step c b l n g i)"
proof (rule read_step_cases)
  show "step_all (keeps S T) (escaped_text c b l n i)"
    using assms
    by (auto simp: escaped_text_def step_all_def keeps_def dest!: sets_write_b split: option.splits)
  show "step_all (keeps S T) (start_sequence c b l n i)"
    using assms
    by (auto simp: start_sequence_def step_all_def keeps_def dest!: sets_write_b split: option.splits)
  show "step_all (keeps S T) (take_option c b l n i (buf c ! i))"
  proof -
    obtain res c3 where hn: "handleNegotiation (c\<lparr>option := buf c ! i\<rparr>) = (res, c3)"
      by (metis prod.exhaust)
    have "keeps S T (c\<lparr>option := buf c ! i\<rparr>)" using assms by (simp add: keeps_def)
    from keeps_handleNegotiation [OF this] hn have "keeps S T c3" by simp
    with assms hn show ?thesis
      by (simp add: take_option_def step_all_def keeps_def endIAC_def split: option.splits)
  qed
qed (use assms in \<open>simp_all add: step_all_def keeps_def escaped_inside_def take_command_def
      end_subnegotiation_def endIAC_def split: option.splits\<close>)

lemma keeps_read_loop:
  "keeps S T c \<Longrightarrow> keeps S T (exit_conn (read_loop c b l n g i))"
  by (erule read_loop_preserves) (use keeps_read_step in \<open>simp add: step_all_def\<close>)

lemma keeps_read:
  assumes "keeps S T c"
  shows "keeps S T (snd (snd (read c b)))"
proof -
  obtain res c1 where f: "fill c (length b) = (res, c1)" by (metis prod.exhaust)
  have i1: "keeps S T c1" using sets_fill [of c "length b"] f assms by (simp add: keeps_def)
  show ?thesis
  proof (cases "res = Ret None")
    case False
    with f i1 show ?thesis
      by (cases res) (auto simp: read_def split: option.splits)
  next
    case True
    have "keeps S T (exit_conn (read_loop c1 b 0 0 False (r c1)))"
      using i1 by (rule keeps_read_loop)
    with f True show ?thesis
      by (cases "read_loop c1 b 0 0 False (r c1)")
         (auto simp: read_def Let_def keeps_def)
  qed
qed

lemma keeps_Read: "keeps S T c \<Longrightarrow> keeps S T (snd (snd (Read c b)))"
  unfolding Read_def by (erule Read_loop_preserves) (rule keeps_read)

lemma append_only:
  "clientWont c \<subseteq> clientWont (snd (snd (read c b)))
   \<and> clientDont c \<subseteq> clientDont (snd (snd (read c b)))
   \<and> clientWont c \<subseteq> clientWont (snd (snd (Read c b)))
   \<and> clientDont c \<subseteq> clientDont (snd (snd (Read c b)))
   \<and> clientWont (snd (Write c b)) = clientWont c
   \<and> clientDont (snd (Write c b)) = clientDont c"
proof -
  have k: "keeps (clientWont c) (clientDont c) c" by (simp add: keeps_def)
  from keeps_read [OF k, of b] keeps_Read [OF k, of b] show ?thesis
    by (simp add: keeps_def Write_def split: prod.splits)
qed

lemma negotiation_pass:
  assumes "idle c" "r c = w c" "w c \<le> length (buf c)" "3 \<le> length (buf c)" "b \<noteq> []"
    and "rd (Conn c) = ([IAC, x, ob], None) # rest"
    and "x \<noteq> 0" "x \<noteq> IAC" "x \<noteq> SB"
  shows "\<exists>bf res c3.
           handleNegotiation (c\<lparr>Conn := (Conn c)\<lparr>rd := rest\<rparr>, buf := bf, r := 0, w := 3,
                                 iac := True, cmd := x, option := ob\<rparr>) = (res, c3)
           \<and> read c b = (case snd res of
                           Some e \<Rightarrow> (Ret (0, Some e), b, c3)
                         | None \<Rightarrow> (Ret (0, None), b, endIAC c3 2))"
proof -
  have "length [IAC, x, ob] \<le> length (buf c)" using assms(4) by simp
  from fill_chunk [OF assms(2,3) this assms(6), of "length b"]
  obtain bf where "fill c (length b) =
      (Ret None, c\<lparr>Conn := (Conn c)\<lparr>rd := rest\<rparr>, buf := [IAC, x, ob] @ bf, r := 0,
                   w := length [IAC, x, ob]\<rparr>)"
    by blast
  then have f: "fill c (length b) =
      (Ret None, c\<lparr>Conn := (Conn c)\<lparr>rd := rest\<rparr>, buf := [IAC, x, ob] @ bf, r := 0, w := 3\<rparr>)"
    by simp
  define cf where "cf = c\<lparr>Conn := (Conn c)\<lparr>rd := rest\<rparr>, buf := [IAC, x, ob] @ bf, r := 0, w := 3\<rparr>"
  have f': "fill c (length b) = (Ret None, cf)" using f by (simp add: cf_def)
  obtain res c3 where hn: "handleNegotiation (cf\<lparr>iac := True, cmd := x, option := ob\<rparr>) = (res, c3)"
    by (metis prod.exhaust)
  have cf: "idle cf" "r cf = 0" "w cf = 3" "3 \<le> length (buf cf)"
    "buf cf ! 0 = IAC" "buf cf ! 1 = x" "buf cf ! 2 = ob"
    using assms(1) by (simp_all add: cf_def idle_def)
  note loop = negotiation_loop [OF cf(1-4) assms(5) cf(5-7) assms(7-9) hn]
  have fr: "buf c3 = buf cf" "w c3 = 3"
    using frame_handleNegotiation' [OF hn] cf(3) by simp_all
  have len3: "3 \<le> length (buf c3)" using fr(1) cf(4) by simp
  have fin: "endIAC c3 2\<lparr>r := 3\<rparr> = endIAC c3 2" by (simp add: endIAC_def)
  have "read c b = (case snd res of
                           Some e \<Rightarrow> (Ret (0, Some e), b, c3)
                         | None \<Rightarrow> (Ret (0, None), b, endIAC c3 2))"
    using f' loop fr len3 cf(2)
    by (simp add: read_def endIAC_def slice_def copy_at_def split: option.splits)
  with hn show ?thesis
    unfolding cf_def by (intro exI [of _ "[IAC, x, ob] @ bf"] exI [of _ res] exI [of _ c3]) simp
qed

lemma writeBytes_accepted:
  assumes "accepts_next (Conn c)" "writeBytes c bytes = (res, c3)"
  shows "snd res = None \<and> wire (Conn c3) = wire (Conn c) @ bytes \<and> events c3 = events c
         \<and> clientWont c3 = clientWont c \<and> clientDont c3 = clientDont c"
  using assms
  by (auto simp: writeBytes_def Conn_Write_def accepts_next_def split: list.splits)

lemma handleNegotiation_rows:
  assumes "handleNegotiation c = (res, c3)" "accepts_next (Conn c)"
  shows "(cmd c = WILL \<and> OptionHandlers c (option c) = None \<longrightarrow>
            snd res = None \<and> wire (Conn c3) = wire (Conn c) @ [IAC, DONT, option c]
            \<and> events c3 = events c \<and> clientWont c3 = clientWont c \<and> clientDont c3 = clientDont c)"
    and "(cmd c = DO \<and> OptionHandlers c (option c) = None \<longrightarrow>
            snd res = None \<and> wire (Conn c3) = wire (Conn c) @ [IAC, WONT, option c]
            \<and> events c3 = events c \<and> clientWont c3 = clientWont c \<and> clientDont c3 = clientDont c)"
    and "(\<forall>h. cmd c = WILL \<and> OptionHandlers c (option c) = Some h \<longrightarrow>
            snd res = None \<and> wire (Conn c3) = wire (Conn c)
            \<and> events c3 = events c @ [HandleWill h]
            \<and> clientWont c3 = clientWont c \<and> clientDont c3 = clientDont c)"
    and "(\<forall>h. cmd c = DO \<and> OptionHandlers c (option c) = Some h \<longrightarrow>
            snd res = None \<and> wire (Conn c3) = wire (Conn c)
            \<and> events c3 = events c @ [HandleDo h]
            \<and> clientWont c3 = clientWont c \<and> clientDont c3 = clientDont c)"
    and "(cmd c = WONT \<longrightarrow>
            snd res = None \<and> wire (Conn c3) = wire (Conn c) \<and> events c3 = events c
            \<and> clientWont c3 = insert (option c) (clientWont c) \<and> clientDont c3 = clientDont c)"
    and "(cmd c = DONT \<longrightarrow>
            snd res = None \<and> wire (Conn c3) = wire (Conn c) \<and> events c3 = events c
            \<and> clientWont c3 = clientWont c \<and> clientDont c3 = insert (option c) (clientDont c))"
proof -
  show "(cmd c = WILL \<and> OptionHandlers c (option c) = None \<longrightarrow>
            snd res = None \<and> wire (Conn c3) = wire (Conn c) @ [IAC, DONT, option c]
            \<and> events c3 = events c \<and> clientWont c3 = clientWont c \<and> clientDont c3 = clientDont c)"
    using assms writeBytes_accepted [of c "[IAC, DONT, option c]" res c3]
    by (auto simp: handleNegotiation_def)
  show "(cmd c = DO \<and> OptionHandlers c (option c) = None \<longrightarrow>
            snd res = None \<and> wire (Conn c3) = wire (Conn c) @ [IAC, WONT, option c]
            \<and> events c3 = events c \<and> clientWont c3 = clientWont c \<and> clientDont c3 = clientDont c)"
    using assms writeBytes_accepted [of c "[IAC, WONT, option c]" res c3]
    by (auto simp: handleNegotiation_def telnet_consts)
qed (use assms in \<open>auto simp: handleNegotiation_def telnet_consts\<close>)

lemma negotiation_pass_ok:
  assumes "idle c" "r c = w c" "w c \<le> length (buf c)" "3 \<le> length (buf c)" "b \<noteq> []"
    and "rd (Conn c) = ([IAC, x, ob], None) # rest" "accepts_next (Conn c)"
    and "x = WILL \<or> x = WONT \<or> x = DO \<or> x = DONT"
  shows "\<exists>c0 res c3. handleNegotiation c0 = (res, c3) \<and> cmd c0 = x \<and> option c0 = ob
           \<and> OptionHandlers c0 = OptionHandlers c \<and> wire (Conn c0) = wire (Conn c)
           \<and> events c0 = events c \<and> clientWont c0 = clientWont c
           \<and> clientDont c0 = clientDont c \<and> accepts_next (Conn c0)
           \<and> (snd res = None \<longrightarrow> read c b = (Ret (0, None), b, endIAC c3 2))"
proof -
  have x: "x \<noteq> 0" "x \<noteq> IAC" "x \<noteq> SB"
    using assms(8) by (auto simp: telnet_consts)
  from negotiation_pass [OF assms(1-6) x] obtain bf res c3 where
    hn: "handleNegotiation (c\<lparr>Conn := (Conn c)\<lparr>rd := rest\<rparr>, buf := bf, r := 0, w := 3,
                                 iac := True, cmd := x, option := ob\<rparr>) = (res, c3)"
    and rd: "read c b = (case snd res of
                           Some e \<Rightarrow> (Ret (0, Some e), b, c3)
                         | None \<Rightarrow> (Ret (0, None), b, endIAC c3 2))"
    by blast
  show ?thesis
    using hn rd assms(7)
    by (intro exI [of _ "c\<lparr>Conn := (Conn c)\<lparr>rd := rest\<rparr>, buf := bf, r := 0, w := 3,
                                 iac := True, cmd := x, option := ob\<rparr>"]
              exI [of _ res] exI [of _ c3])
       (simp add: accepts_next_def)
qed

text \<open>The dispatch on the one path where it works, for every option identifier \<open>ob\<close>: a
  connection between control sequences whose buffer holds no unread byte, the next transport
  read delivering exactly \<open>IAC x ob\<close>, a caller's slice that is not empty and a transport
  that accepts the next write. The pass then returns zero bytes and no error, and replies,
  calls the handler or records the refusal as the table of the dispatch says. The refusal
  sets only grow, on every path.\<close>

lemma negotiation_in_one_read:
  assumes "idle c" "r c = w c" "w c \<le> length (buf c)" "3 \<le> length (buf c)" "b \<noteq> []"
    and "rd (Conn c) = ([IAC, x, ob], None) # rest" "accepts_next (Conn c)"
    and "read c b = (out, b', c')"
  shows "(x = WILL \<and> OptionHandlers c ob = None \<longrightarrow>
            out = Ret (0, None) \<and> b' = b \<and> wire (Conn c') = wire (Conn c) @ [IAC, DONT, ob]
            \<and> events c' = events c \<and> clientWont c' = clientWont c
            \<and> clientDont c' = clientDont c \<and> idle c')
       \<and> (x = DO \<and> OptionHandlers c ob = None \<longrightarrow>
            out = Ret (0, None) \<and> b' = b \<and> wire (Conn c') = wire (Conn c) @ [IAC, WONT, ob]
            \<and> events c' = events c \<and> clientWont c' = clientWont c
            \<and> clientDont c' = clientDont c \<and> idle c')
       \<and> (\<forall>h. x = WILL \<and> OptionHandlers c ob = Some h \<longrightarrow>
            out = Ret (0, None) \<and> b' = b \<and> wire (Conn c') = wire (Conn c)
            \<and> events c' = events c @ [HandleWill h] \<and> clientWont c' = clientWont c
            \<and> clientDont c' = clientDont c \<and> idle c')
       \<and> (\<forall>h. x = DO \<and> OptionHandlers c ob = Some h \<longrightarrow>
            out = Ret (0, None) \<and> b' = b \<and> wire (Conn c') = wire (Conn c)
            \<and> events c' = events c @ [HandleDo h] \<and> clientWont c' = clientWont c
            \<and> clientDont c' = clientDont c \<and> idle c')
       \<and> (x = WONT \<longrightarrow>
            out = Ret (0, None) \<and> b' = b \<and> wire (Conn c') = wire (Conn c)
            \<and> events c' = events c \<and> clientWont c' = insert ob (clientWont c)
            \<and> clientDont c' = clientDont c \<and> idle c')
       \<and> (x = DONT \<longrightarrow>
            out = Ret (0, None) \<and> b' = b \<and> wire (Conn c') = wire (Conn c)
            \<and> events c' = events c \<and> clientWont c' = clientWont c
            \<and> clientDont c' = insert ob (clientDont c) \<and> idle c')
       \<and> clientWont c1 \<subseteq> clientWont (snd (snd (read c1 b1)))
       \<and> clientDont c1 \<subseteq> clientDont (snd (snd (read c1 b1)))
       \<and> clientWont c1 \<subseteq> clientWont (snd (snd (Read c1 b1)))
       \<and> clientDont c1 \<subseteq> clientDont (snd (snd (Read c1 b1)))
       \<and> clientWont (snd (Write c1 b1)) = clientWont c1
       \<and> clientDont (snd (Write c1 b1)) = clientDont c1"
proof (cases "x = WILL \<or> x = WONT \<or> x = DO \<or> x = DONT")
  case False
  with append_only [of c1 b1] show ?thesis by simp
next
  case True
  from negotiation_pass_ok [OF assms(1-7) True] obtain c0 res c3 where
    hn: "handleNegotiation c0 = (res, c3)"
    and c0: "cmd c0 = x" "option c0 = ob" "OptionHandlers c0 = OptionHandlers c"
      "wire (Conn c0) = wire (Conn c)" "events c0 = events c"
      "clientWont c0 = clientWont c" "clientDont c0 = clientDont c"
    and acc: "accepts_next (Conn c0)"
    and rd: "snd res = None \<longrightarrow> read c b = (Ret (0, None), b, endIAC c3 2)"
    by (elim exE conjE) (rule that)
  note rows = handleNegotiation_rows [OF hn acc, unfolded c0]
  have fin: "out = Ret (0, None) \<and> b' = b \<and> wire (Conn c') = wire (Conn c3)
             \<and> events c' = events c3 \<and> clientWont c' = clientWont c3
             \<and> clientDont c' = clientDont c3 \<and> idle c'" if "snd res = None"
    using that rd assms(8) by (auto simp: endIAC_def idle_def)
  show ?thesis
  proof (intro conjI impI allI)
    show "clientWont c1 \<subseteq> clientWont (snd (snd (read c1 b1)))"
      "clientDont c1 \<subseteq> clientDont (snd (snd (read c1 b1)))"
      "clientWont c1 \<subseteq> clientWont (snd (snd (Read c1 b1)))"
      "clientDont c1 \<subseteq> clientDont (snd (snd (Read c1 b1)))"
      "clientWont (snd (Write c1 b1)) = clientWont c1"
      "clientDont (snd (Write c1 b1)) = clientDont c1"
      using append_only [of c1 b1] by simp_all
  qed (use rows fin in \<open>simp_all\<close>)
qed

text \<open>C4. The dispatch does not hold for every way the three bytes can reach the decoder.
  \<^item> \<open>IAC WONT 3\<close> delivered one byte per transport read records the refusal, but the
    bytes \<open>IAC\<close> and \<open>WONT\<close> are handed to the caller as application data (the closing
    copy of a pass, as for C2 and C3); delivered in one read no application byte is
    produced.
  \<^item> \<open>IAC WILL 255\<close> with no handler, delivered as \<open>IAC WILL\<close> and then \<open>255\<close>: the second
    call of \<^verbatim>\<open>Read\<close> panics in the look-behind read at index 0 (as for C6), and no
    \<open>IAC DONT 255\<close> is written; delivered in one read the reply is written.
  \<^item> \<open>A B IAC WILL 1\<close> with no handler, read with two-byte slices: the first pass fills the
    slice at the marker (as for C10), the next pass takes the marker as the second of a
    pair, \<open>WILL\<close> and \<open>1\<close> are handed to the caller as application data, and no reply
    is written; with room for all bytes the reply \<open>IAC DONT 1\<close> is written.\<close>

theorem C4_negotiation_breaks_across_passes:
  "(case drain 3 4 (fresh [([IAC, WONT, 3], None)] []) of
      (bs, res, c) \<Rightarrow> bs = [] \<and> wire (Conn c) = [] \<and> clientWont c = {3})
   \<and> (case drain 3 4 (fresh [([IAC], None), ([WONT], None), ([3], None)] []) of
      (bs, res, c) \<Rightarrow> bs = [IAC, WONT] \<and> wire (Conn c) = [] \<and> clientWont c = {3})
   \<and> (case drain 2 4 (fresh [([IAC, WILL, 255], None)] []) of
      (bs, res, c) \<Rightarrow> bs = [] \<and> wire (Conn c) = [IAC, DONT, 255])
   \<and> (case drain 2 4 (fresh [([IAC, WILL], None), ([255], None)] []) of
      (bs, res, c) \<Rightarrow> bs = [IAC, WILL] \<and> res = Panic \<and> wire (Conn c) = [])
   \<and> (case drain 3 8 (fresh [([0x41, 0x42, IAC, WILL, 1], None), ([], None)] []) of
      (bs, res, c) \<Rightarrow> bs = [0x41, 0x42] \<and> wire (Conn c) = [IAC, DONT, 1])
   \<and> (case drain 3 2 (fresh [([0x41, 0x42, IAC, WILL, 1], None), ([], None)] []) of
      (bs, res, c) \<Rightarrow> bs = [0x41, 0x42, WILL, 1] \<and> wire (Conn c) = [])"
  by code_simp

end
